theory Spec2Isabelle
  imports Main
begin

section \<open>Text and character classes\<close>

text \<open>
  A Python \<open>str\<close> is a sequence of Unicode code points, so a text is a list of code
  points and \<open>length\<close> counts what Python's \<open>len\<close> counts. \<open>str\<close> writes an ASCII
  literal as such a text.
\<close>

type_synonym codepoint = nat
type_synonym pytext = "codepoint list"

definition str :: "string \<Rightarrow> pytext" where
  "str cs = map of_char cs"

text \<open>
  The patterns of \<open>adventure.py\<close> are \<open>str\<close> patterns compiled without flags, so
  \<open>\d\<close> is "Unicode decimal digit" and \<open>\b\<close> is built on "Unicode alphanumeric or
  underscore". On ASCII these classes are fixed; beyond ASCII they are read from the
  interpreter's Unicode database, which is not part of the repository and is therefore
  a parameter: \<open>decimal\<close> is \<open>unicodedata.decimal\<close> (the value of a decimal digit),
  \<open>alnum\<close> is \<open>str.isalnum\<close>.
\<close>

record unicode_db =
  decimal :: "codepoint \<Rightarrow> nat option"
  alnum :: "codepoint \<Rightarrow> bool"

definition digit_value :: "unicode_db \<Rightarrow> codepoint \<Rightarrow> nat option" where
  "digit_value U c =
     (if c < 128 then (if 48 \<le> c \<and> c \<le> 57 then Some (c - 48) else None)
      else (case decimal U c of
              None \<Rightarrow> None
            | Some d \<Rightarrow> if d \<le> 9 then Some d else None))"

definition is_decimal :: "unicode_db \<Rightarrow> codepoint \<Rightarrow> bool" where
  "is_decimal U c = (digit_value U c \<noteq> None)"

definition is_alnum :: "unicode_db \<Rightarrow> codepoint \<Rightarrow> bool" where
  "is_alnum U c =
     (if c < 128 then (48 \<le> c \<and> c \<le> 57) \<or> (65 \<le> c \<and> c \<le> 90) \<or> (97 \<le> c \<and> c \<le> 122)
      else alnum U c \<or> is_decimal U c)"

definition is_word :: "unicode_db \<Rightarrow> codepoint \<Rightarrow> bool" where
  "is_word U c = (is_alnum U c \<or> c = 95)"

text \<open>
  A fragment of the database for the concrete runs. It agrees with \<open>str.isalnum\<close> and
  \<open>unicodedata.decimal\<close> on the code points U+0080..U+00FF (the letters, the
  ordinal indicators, the micro sign, the superscript digits and the vulgar fractions are
  alphanumeric, none of them is a decimal digit) and on the Arabic-Indic digits
  U+0660..U+0669; the concrete runs use no other code point beyond ASCII.
\<close>

definition sample_db :: unicode_db where
  "sample_db =
     \<lparr> decimal = (\<lambda>c. if 1632 \<le> c \<and> c \<le> 1641 then Some (c - 1632) else None),
       alnum = (\<lambda>c. (1632 \<le> c \<and> c \<le> 1641) \<or>
                    c = 170 \<or> c = 178 \<or> c = 179 \<or> c = 181 \<or> c = 185 \<or> c = 186 \<or>
                    (188 \<le> c \<and> c \<le> 190) \<or>
                    (192 \<le> c \<and> c \<le> 255 \<and> c \<noteq> 215 \<and> c \<noteq> 247)) \<rparr>"

section \<open>The regular expressions of the module\<close>

text \<open>
  The fragment of Python's \<open>re\<close> syntax that the two patterns use: literals, character
  sets with ranges, \<open>\d\<close>, \<open>\b\<close>, concatenation, alternation, numbered capturing groups
  and the counted repetition \<open>{n}\<close>.
\<close>

datatype set_item = Chr codepoint | Rng codepoint codepoint

datatype regex =
    Lit codepoint
  | In "set_item list"
  | Digit
  | Boundary
  | Seq regex regex
  | Alt regex regex
  | Group nat regex
  | Repeat nat regex

fun item_has :: "set_item \<Rightarrow> codepoint \<Rightarrow> bool" where
  "item_has (Chr a) c = (c = a)"
| "item_has (Rng lo hi) c = (lo \<le> c \<and> c \<le> hi)"

definition in_set :: "set_item list \<Rightarrow> codepoint \<Rightarrow> bool" where
  "in_set items c = list_ex (\<lambda>i. item_has i c) items"

text \<open>
  \<open>\b\<close>: the characters on the two sides of the position differ in being word
  characters; outside the text counts as "not a word character".
\<close>

definition at_boundary :: "unicode_db \<Rightarrow> pytext \<Rightarrow> nat \<Rightarrow> bool" where
  "at_boundary U s p =
     (let that = (0 < p \<and> p \<le> length s \<and> is_word U (s ! (p - 1)));
          this = (p < length s \<and> is_word U (s ! p))
      in this \<noteq> that)"

text \<open>
  The backtracking matcher. A state is the current position and the spans of the groups
  closed so far; the result lists every way to match from that state, in the order in
  which the engine tries them (left alternative first), so its head is the match that
  \<open>re\<close> reports.
\<close>

type_synonym span = "nat \<times> nat"
type_synonym mstate = "nat \<times> (nat \<rightharpoonup> span)"

fun repeat_match :: "nat \<Rightarrow> (mstate \<Rightarrow> mstate list) \<Rightarrow> mstate \<Rightarrow> mstate list" where
  "repeat_match 0 f st = [st]"
| "repeat_match (Suc n) f st = concat (map (repeat_match n f) (f st))"

fun rmatch :: "unicode_db \<Rightarrow> pytext \<Rightarrow> regex \<Rightarrow> mstate \<Rightarrow> mstate list" where
  "rmatch U s (Lit c) (p, g) = (if p < length s \<and> s ! p = c then [(Suc p, g)] else [])"
| "rmatch U s (In items) (p, g) =
     (if p < length s \<and> in_set items (s ! p) then [(Suc p, g)] else [])"
| "rmatch U s Digit (p, g) =
     (if p < length s \<and> is_decimal U (s ! p) then [(Suc p, g)] else [])"
| "rmatch U s Boundary (p, g) = (if at_boundary U s p then [(p, g)] else [])"
| "rmatch U s (Seq a b) st = concat (map (rmatch U s b) (rmatch U s a st))"
| "rmatch U s (Alt a b) st = rmatch U s a st @ rmatch U s b st"
| "rmatch U s (Group i a) (p, g) =
     map (\<lambda>(q, h). (q, h(i \<mapsto> (p, q)))) (rmatch U s a (p, g))"
| "rmatch U s (Repeat n a) st = repeat_match n (rmatch U s a) st"

definition match_at :: "unicode_db \<Rightarrow> regex \<Rightarrow> pytext \<Rightarrow> nat \<Rightarrow> mstate option" where
  "match_at U r s p = (case rmatch U s r (p, Map.empty) of [] \<Rightarrow> None | m # _ \<Rightarrow> Some m)"

text \<open>
  A match: where it starts, where it ends, and the spans of its groups.
\<close>

record rematch =
  m_start :: nat
  m_end :: nat
  m_groups :: "nat \<rightharpoonup> span"

text \<open>
  The scan shared by \<open>re.findall\<close> and \<open>re.finditer\<close>: try the pattern at the current
  position; after a match go on from its end (one further when the match is empty), after
  a failure from the next position; stop past the end of the text.
\<close>

function scan :: "unicode_db \<Rightarrow> regex \<Rightarrow> pytext \<Rightarrow> nat \<Rightarrow> rematch list" where
  "scan U r s p =
     (if length s < p then []
      else (case match_at U r s p of
              None \<Rightarrow> scan U r s (Suc p)
            | Some (e, g) \<Rightarrow>
                \<lparr> m_start = p, m_end = e, m_groups = g \<rparr>
                  # scan U r s (if p < e then e else Suc p)))"
  by pat_completeness auto
termination
  by (relation "measure (\<lambda>(U, r, s, p). Suc (length s) - p)") auto

definition slice :: "pytext \<Rightarrow> nat \<Rightarrow> nat \<Rightarrow> pytext" where
  "slice s a b = take (b - a) (drop a s)"

definition group_text :: "pytext \<Rightarrow> rematch \<Rightarrow> nat \<Rightarrow> pytext" where
  "group_text s m i = (case m_groups m i of None \<Rightarrow> [] | Some (a, b) \<Rightarrow> slice s a b)"

text \<open>
  \<open>re.finditer\<close> yields the matches of the scan from position 0. \<open>re.findall\<close> runs
  the same scan and returns, for a pattern without groups, the matched texts and, for a
  pattern with \<open>n > 1\<close> groups, the tuples of the group texts (a group that took no part
  in the match gives the empty text).
\<close>

definition re_finditer :: "unicode_db \<Rightarrow> regex \<Rightarrow> pytext \<Rightarrow> rematch list" where
  "re_finditer U r s = scan U r s 0"

definition re_findall :: "unicode_db \<Rightarrow> regex \<Rightarrow> pytext \<Rightarrow> pytext list" where
  "re_findall U r s = map (\<lambda>m. slice s (m_start m) (m_end m)) (re_finditer U r s)"

definition re_findall_groups :: "unicode_db \<Rightarrow> regex \<Rightarrow> nat \<Rightarrow> pytext \<Rightarrow> pytext list list" where
  "re_findall_groups U r n s = map (\<lambda>m. map (group_text s m) [1..<Suc n]) (re_finditer U r s)"

fun join :: "pytext \<Rightarrow> pytext list \<Rightarrow> pytext" where
  "join sep [] = []"
| "join sep [x] = x"
| "join sep (x # y # ys) = x @ sep @ join sep (y # ys)"

section \<open>The extraction functions\<close>

text \<open>
  \<^verbatim>\<open>date_pattern = r"\b(0[1-9]|1[0-2])/(0[1-9]|[12][0-9]|3[01])/([12]\d{3})\b"\<close>
\<close>

definition month_re :: regex where
  "month_re = Alt (Seq (Lit 48) (In [Rng 49 57])) (Seq (Lit 49) (In [Rng 48 50]))"

definition day_re :: regex where
  "day_re = Alt (Seq (Lit 48) (In [Rng 49 57]))
             (Alt (Seq (In [Chr 49, Chr 50]) (In [Rng 48 57]))
                  (Seq (Lit 51) (In [Chr 48, Chr 49])))"

definition year_re :: regex where
  "year_re = Seq (In [Chr 49, Chr 50]) (Repeat 3 Digit)"

definition date_pattern :: regex where
  "date_pattern =
     Seq Boundary (Seq (Group 1 month_re) (Seq (Lit 47) (Seq (Group 2 day_re)
       (Seq (Lit 47) (Seq (Group 3 year_re) Boundary)))))"

text \<open>
  \<^verbatim>\<open>found_dates = re.findall(date_pattern, journal_text)\<close>
  \<^verbatim>\<open>return ['/'.join(date) for date in found_dates]\<close>
\<close>

definition date_matches :: "unicode_db \<Rightarrow> pytext \<Rightarrow> rematch list" where
  "date_matches U journal_text = re_finditer U date_pattern journal_text"

definition extract_journal_dates :: "unicode_db \<Rightarrow> pytext \<Rightarrow> pytext list" where
  "extract_journal_dates U journal_text =
     map (join [47]) (re_findall_groups U date_pattern 3 journal_text)"

text \<open>
  \<^verbatim>\<open>code_pattern = r"AZMAR-\d{3}"\<close>
\<close>

definition code_pattern :: regex where
  "code_pattern =
     Seq (Lit 65) (Seq (Lit 90) (Seq (Lit 77) (Seq (Lit 65) (Seq (Lit 82) (Seq (Lit 45)
       (Repeat 3 Digit))))))"

definition code_matches :: "unicode_db \<Rightarrow> pytext \<Rightarrow> rematch list" where
  "code_matches U journal_text = re_finditer U code_pattern journal_text"

definition extract_secret_codes :: "unicode_db \<Rightarrow> pytext \<Rightarrow> pytext list" where
  "extract_secret_codes U journal_text = re_findall U code_pattern journal_text"

section \<open>The lexical rules, stated directly\<close>

text \<open>
  What the two patterns accept, written as conditions on the characters of the text at
  a position, without the matcher. \<open>date_at\<close> is the date rule with its two word
  boundaries, \<open>code_at\<close> the code rule.
\<close>

definition month_chars :: "codepoint \<Rightarrow> codepoint \<Rightarrow> bool" where
  "month_chars a b = ((a = 48 \<and> 49 \<le> b \<and> b \<le> 57) \<or> (a = 49 \<and> 48 \<le> b \<and> b \<le> 50))"

definition day_chars :: "codepoint \<Rightarrow> codepoint \<Rightarrow> bool" where
  "day_chars a b =
     ((a = 48 \<and> 49 \<le> b \<and> b \<le> 57) \<or> ((a = 49 \<or> a = 50) \<and> 48 \<le> b \<and> b \<le> 57) \<or>
      (a = 51 \<and> (b = 48 \<or> b = 49)))"

definition date_at :: "unicode_db \<Rightarrow> pytext \<Rightarrow> nat \<Rightarrow> bool" where
  "date_at U s p =
     (p + 10 \<le> length s \<and> at_boundary U s p \<and>
      month_chars (s ! p) (s ! (p + 1)) \<and> s ! (p + 2) = 47 \<and>
      day_chars (s ! (p + 3)) (s ! (p + 4)) \<and> s ! (p + 5) = 47 \<and>
      (s ! (p + 6) = 49 \<or> s ! (p + 6) = 50) \<and>
      is_decimal U (s ! (p + 7)) \<and> is_decimal U (s ! (p + 8)) \<and> is_decimal U (s ! (p + 9)) \<and>
      at_boundary U s (p + 10))"

definition date_groups :: "nat \<Rightarrow> (nat \<rightharpoonup> span)" where
  "date_groups p = [1 \<mapsto> (p, p + 2), 2 \<mapsto> (p + 3, p + 5), 3 \<mapsto> (p + 6, p + 10)]"

definition code_at :: "unicode_db \<Rightarrow> pytext \<Rightarrow> nat \<Rightarrow> bool" where
  "code_at U s p =
     (p + 9 \<le> length s \<and>
      s ! p = 65 \<and> s ! (p + 1) = 90 \<and> s ! (p + 2) = 77 \<and> s ! (p + 3) = 65 \<and>
      s ! (p + 4) = 82 \<and> s ! (p + 5) = 45 \<and>
      is_decimal U (s ! (p + 6)) \<and> is_decimal U (s ! (p + 7)) \<and> is_decimal U (s ! (p + 8)))"

text \<open>
  A pattern is deterministic of width \<open>n\<close> when, from every state, it has at most one
  way to match, that way consumes \<open>n\<close> characters, and whether it matches is decided by
  \<open>A\<close>; \<open>G\<close> is what it does to the group spans.
\<close>

definition det_match ::
  "unicode_db \<Rightarrow> pytext \<Rightarrow> regex \<Rightarrow> nat \<Rightarrow> (nat \<Rightarrow> bool) \<Rightarrow>
     (nat \<Rightarrow> (nat \<rightharpoonup> span) \<Rightarrow> (nat \<rightharpoonup> span)) \<Rightarrow> bool" where
  "det_match U s r n A G =
     (\<forall>p g. rmatch U s r (p, g) = (if A p then [(p + n, G p g)] else []))"

text \<open>
  The code rule as the specification words it: scanning left to right, a token is the
  literal prefix "AZMAR-" immediately followed by three decimal digits; a token found is
  taken and the scan goes on behind it, otherwise the scan moves one character on.
\<close>

definition code_here :: "unicode_db \<Rightarrow> pytext \<Rightarrow> bool" where
  "code_here U t =
     (9 \<le> length t \<and> take 6 t = str ''AZMAR-'' \<and>
      is_decimal U (t ! 6) \<and> is_decimal U (t ! 7) \<and> is_decimal U (t ! 8))"

fun spec_codes :: "unicode_db \<Rightarrow> pytext \<Rightarrow> pytext list" where
  "spec_codes U [] = []"
| "spec_codes U (c # cs) =
     (if code_here U (c # cs) then take 9 (c # cs) # spec_codes U (drop 8 cs)
      else spec_codes U cs)"

text \<open>
  The fields of a date token read as numbers: a two-character month or day field of ASCII
  digits, and a field of decimal digits read as Python's \<open>int\<close> reads it.
\<close>

definition ascii_digit :: "codepoint \<Rightarrow> bool" where
  "ascii_digit c = (48 \<le> c \<and> c \<le> 57)"

definition two_digits :: "pytext \<Rightarrow> nat option" where
  "two_digits f =
     (case f of
        [a, b] \<Rightarrow> if ascii_digit a \<and> ascii_digit b then Some (10 * (a - 48) + (b - 48)) else None
      | _ \<Rightarrow> None)"

definition in_range :: "nat \<Rightarrow> nat \<Rightarrow> nat option \<Rightarrow> bool" where
  "in_range lo hi v = (case v of None \<Rightarrow> False | Some n \<Rightarrow> lo \<le> n \<and> n \<le> hi)"

fun decimal_number :: "unicode_db \<Rightarrow> nat \<Rightarrow> pytext \<Rightarrow> nat option" where
  "decimal_number U acc [] = Some acc"
| "decimal_number U acc (c # cs) =
     (case digit_value U c of None \<Rightarrow> None | Some d \<Rightarrow> decimal_number U (10 * acc + d) cs)"

text \<open>
  A valid date token in the words of the specification: ten characters, month in 01-12,
  day in 01-31, a year whose first character is 1 or 2 followed by three decimal digits,
  and "/" between the fields. A token occurs at a position of a text when the slice of
  the text there equals it. A position is flanked, before or after, by a character of a
  class when the character on that outer side exists and belongs to the class.
\<close>

definition valid_date_token :: "unicode_db \<Rightarrow> pytext \<Rightarrow> bool" where
  "valid_date_token U d =
     (length d = 10 \<and>
      in_range 1 12 (two_digits (take 2 d)) \<and> d ! 2 = 47 \<and>
      in_range 1 31 (two_digits (take 2 (drop 3 d))) \<and> d ! 5 = 47 \<and>
      (d ! 6 = 49 \<or> d ! 6 = 50) \<and>
      is_decimal U (d ! 7) \<and> is_decimal U (d ! 8) \<and> is_decimal U (d ! 9))"

definition occurs_at :: "pytext \<Rightarrow> nat \<Rightarrow> pytext \<Rightarrow> bool" where
  "occurs_at s p d = (p + length d \<le> length s \<and> slice s p (p + length d) = d)"

definition flanked_before :: "(codepoint \<Rightarrow> bool) \<Rightarrow> pytext \<Rightarrow> nat \<Rightarrow> bool" where
  "flanked_before cls s p = (0 < p \<and> p \<le> length s \<and> cls (s ! (p - 1)))"

definition flanked_after :: "(codepoint \<Rightarrow> bool) \<Rightarrow> pytext \<Rightarrow> nat \<Rightarrow> bool" where
  "flanked_after cls s q = (q < length s \<and> cls (s ! q))"

declare scan.simps [simp del]

section \<open>Running the model on concrete texts\<close>

lemma repeat_match_numeral:
  "repeat_match (numeral k) f st = concat (map (repeat_match (pred_numeral k) f) (f st))"
  by (simp add: numeral_eq_Suc)

lemma upt_1_4: "[Suc 0..<4] = [Suc 0, 2, 3]"
  by (simp add: upt_rec)

lemmas run_simps =
  scan.simps extract_secret_codes_def extract_journal_dates_def re_findall_def re_findall_groups_def
  re_finditer_def code_pattern_def date_pattern_def month_re_def day_re_def year_re_def
  str_def match_at_def slice_def group_text_def repeat_match_numeral upt_1_4
  is_decimal_def digit_value_def in_set_def at_boundary_def is_word_def is_alnum_def Let_def

section \<open>The matcher on the two patterns\<close>

lemma det_Lit: "det_match U s (Lit c) 1 (\<lambda>p. p < length s \<and> s ! p = c) (\<lambda>p g. g)"
  by (simp add: det_match_def)

lemma det_In: "det_match U s (In items) 1 (\<lambda>p. p < length s \<and> in_set items (s ! p)) (\<lambda>p g. g)"
  by (simp add: det_match_def)

lemma det_Digit: "det_match U s Digit 1 (\<lambda>p. p < length s \<and> is_decimal U (s ! p)) (\<lambda>p g. g)"
  by (simp add: det_match_def)

lemma det_Boundary: "det_match U s Boundary 0 (at_boundary U s) (\<lambda>p g. g)"
  by (simp add: det_match_def)

lemma det_Seq:
  assumes "det_match U s a m A Ga" and "det_match U s b n B Gb"
  shows "det_match U s (Seq a b) (m + n) (\<lambda>p. A p \<and> B (p + m)) (\<lambda>p g. Gb (p + m) (Ga p g))"
  using assms by (simp add: det_match_def add.assoc)

lemma det_Alt:
  assumes "det_match U s a n A G" and "det_match U s b n B G" and "\<And>p. \<not> (A p \<and> B p)"
  shows "det_match U s (Alt a b) n (\<lambda>p. A p \<or> B p) G"
  using assms by (auto simp: det_match_def)

lemma det_Group:
  assumes "det_match U s a n A G"
  shows "det_match U s (Group i a) n A (\<lambda>p g. (G p g)(i \<mapsto> (p, p + n)))"
  using assms by (simp add: det_match_def)

lemma det_Repeat:
  assumes "det_match U s a 1 A (\<lambda>p g. g)"
  shows "det_match U s (Repeat k a) k (\<lambda>p. \<forall>j<k. A (p + j)) (\<lambda>p g. g)"
proof -
  have "repeat_match k (rmatch U s a) (p, g) = (if \<forall>j<k. A (p + j) then [(p + k, g)] else [])" for p g
  proof (induction k arbitrary: p)
    case 0
    show ?case by simp
  next
    case (Suc k)
    have "(\<forall>j<Suc k. A (p + j)) \<longleftrightarrow> A p \<and> (\<forall>j<k. A (Suc p + j))"
      by (auto simp: less_Suc_eq_0_disj)
    with Suc assms show ?case by (auto simp: det_match_def)
  qed
  then show ?thesis by (simp add: det_match_def)
qed

lemma det_cong:
  assumes "det_match U s r n A G" and "n = n'" and "\<And>p. A p = A' p"
    and "\<And>p g. A' p \<Longrightarrow> G p g = G' p g"
  shows "det_match U s r n' A' G'"
  using assms by (simp add: det_match_def)

lemma idx_assoc:
  "(p::nat) + numeral a + numeral b = p + numeral (a + b)"
  "(p::nat) + numeral a + 1 = p + numeral (a + Num.One)"
  "(p::nat) + 1 + numeral b = p + numeral (b + Num.One)"
  "(p::nat) + 1 + 1 = p + 2"
  "(p::nat) + 0 = p"
  by simp_all

lemma det_two:
  "det_match U s (Seq (In xs) (In ys)) 2
     (\<lambda>p. p + 2 \<le> length s \<and> in_set xs (s ! p) \<and> in_set ys (s ! (p + 1))) (\<lambda>p g. g)"
  by (rule det_cong [OF det_Seq [OF det_In det_In]]) auto

lemma det_lit_in:
  "det_match U s (Seq (Lit c) (In ys)) 2
     (\<lambda>p. p + 2 \<le> length s \<and> s ! p = c \<and> in_set ys (s ! (p + 1))) (\<lambda>p g. g)"
  by (rule det_cong [OF det_Seq [OF det_Lit det_In]]) auto

lemma det_month:
  "det_match U s month_re 2 (\<lambda>p. p + 2 \<le> length s \<and> month_chars (s ! p) (s ! (p + 1))) (\<lambda>p g. g)"
  unfolding month_re_def
  by (rule det_cong [OF det_Alt [OF det_lit_in det_lit_in]])
     (auto simp: month_chars_def in_set_def)

lemma det_day:
  "det_match U s day_re 2 (\<lambda>p. p + 2 \<le> length s \<and> day_chars (s ! p) (s ! (p + 1))) (\<lambda>p g. g)"
  unfolding day_re_def
  by (rule det_cong [OF det_Alt [OF det_lit_in det_Alt [OF det_two det_lit_in]]])
     (auto simp: day_chars_def in_set_def)

lemma all_less_3: "(\<forall>j<3. P j) \<longleftrightarrow> P 0 \<and> P 1 \<and> P (2::nat)"
  by (auto simp: numeral_3_eq_3 less_Suc_eq numeral_2_eq_2)

lemma det_digits3:
  "det_match U s (Repeat 3 Digit) 3
     (\<lambda>p. p + 3 \<le> length s \<and> is_decimal U (s ! p) \<and> is_decimal U (s ! (p + 1)) \<and> is_decimal U (s ! (p + 2)))
     (\<lambda>p g. g)"
  by (rule det_cong [OF det_Repeat [OF det_Digit]]) (auto simp: all_less_3)

lemma det_year:
  "det_match U s year_re 4
     (\<lambda>p. p + 4 \<le> length s \<and> (s ! p = 49 \<or> s ! p = 50) \<and>
          is_decimal U (s ! (p + 1)) \<and> is_decimal U (s ! (p + 2)) \<and> is_decimal U (s ! (p + 3)))
     (\<lambda>p g. g)"
  unfolding year_re_def
  apply (rule det_cong [OF det_Seq [OF det_In det_digits3]])
    apply simp
   apply (simp only: idx_assoc arith_simps)
   apply (auto simp: in_set_def)
  done

lemma det_date:
  "det_match U s date_pattern 10 (date_at U s)
     (\<lambda>p g. g(1 \<mapsto> (p, p + 2), 2 \<mapsto> (p + 3, p + 5), 3 \<mapsto> (p + 6, p + 10)))"
  unfolding date_pattern_def
  apply (rule det_cong [OF det_Seq [OF det_Boundary det_Seq [OF det_Group [OF det_month]
        det_Seq [OF det_Lit det_Seq [OF det_Group [OF det_day] det_Seq [OF det_Lit
        det_Seq [OF det_Group [OF det_year] det_Boundary]]]]]]])
    apply simp
   apply (simp only: idx_assoc arith_simps date_at_def)
   apply (rule iffI; (elim conjE)?; (intro conjI)?; (assumption | arith))
  apply (simp only: idx_assoc arith_simps)
  done

lemma match_at_date:
  "match_at U date_pattern s p = (if date_at U s p then Some (p + 10, date_groups p) else None)"
  using det_date [of U s] by (simp add: match_at_def det_match_def date_groups_def)

lemma det_code:
  "det_match U s code_pattern 9 (code_at U s) (\<lambda>p g. g)"
  unfolding code_pattern_def
  apply (rule det_cong [OF det_Seq [OF det_Lit det_Seq [OF det_Lit det_Seq [OF det_Lit
        det_Seq [OF det_Lit det_Seq [OF det_Lit det_Seq [OF det_Lit det_digits3]]]]]]])
    apply simp
   apply (simp only: idx_assoc arith_simps code_at_def)
   apply (rule iffI; (elim conjE)?; (intro conjI)?; (assumption | arith))
  apply (rule refl)
  done

lemma match_at_code:
  "match_at U code_pattern s p = (if code_at U s p then Some (p + 9, Map.empty) else None)"
  using det_code [of U s] by (simp add: match_at_def det_match_def)

section \<open>The scan\<close>

lemma scan_past_end: "length s < p \<Longrightarrow> scan U r s p = []"
  by (subst scan.simps) simp

lemma scan_None:
  "p \<le> length s \<Longrightarrow> match_at U r s p = None \<Longrightarrow> scan U r s p = scan U r s (Suc p)"
  by (subst scan.simps) simp

lemma scan_Some:
  "p \<le> length s \<Longrightarrow> match_at U r s p = Some (e, g) \<Longrightarrow>
   scan U r s p = \<lparr> m_start = p, m_end = e, m_groups = g \<rparr> # scan U r s (if p < e then e else Suc p)"
  by (subst scan.simps) simp

lemma scan_sound:
  "m \<in> set (scan U r s p) \<Longrightarrow>
   p \<le> m_start m \<and> m_start m \<le> length s \<and>
   match_at U r s (m_start m) = Some (m_end m, m_groups m)"
proof (induction U r s p rule: scan.induct)
  case (1 U r s p)
  show ?case
  proof (cases "length s < p")
    case True
    with "1.prems" show ?thesis by (simp add: scan_past_end)
  next
    case False
    then have le: "p \<le> length s" by simp
    show ?thesis
    proof (cases "match_at U r s p")
      case None
      with "1.prems" le have "m \<in> set (scan U r s (Suc p))" by (simp add: scan_None)
      from "1.IH"(1) [OF False None this] show ?thesis by simp
    next
      case (Some eg)
      obtain e g where eg: "eg = (e, g)" by (cases eg)
      let ?n = "if p < e then e else Suc p"
      from "1.prems" le Some eg
      have "m = \<lparr> m_start = p, m_end = e, m_groups = g \<rparr> \<or> m \<in> set (scan U r s ?n)"
        by (simp add: scan_Some)
      then show ?thesis
      proof
        assume "m = \<lparr> m_start = p, m_end = e, m_groups = g \<rparr>"
        with le Some eg show ?thesis by simp
      next
        assume "m \<in> set (scan U r s ?n)"
        from "1.IH"(2) [OF False Some eg [symmetric] this] show ?thesis
          by (auto split: if_splits)
      qed
    qed
  qed
qed

lemma scan_sorted: "sorted_wrt (<) (map m_start (scan U r s p))"
proof (induction U r s p rule: scan.induct)
  case (1 U r s p)
  show ?case
  proof (cases "length s < p")
    case True
    then show ?thesis by (simp add: scan_past_end)
  next
    case False
    then have le: "p \<le> length s" by simp
    show ?thesis
    proof (cases "match_at U r s p")
      case None
      with "1.IH"(1) [OF False None] le show ?thesis by (simp add: scan_None)
    next
      case (Some eg)
      obtain e g where eg: "eg = (e, g)" by (cases eg)
      let ?n = "if p < e then e else Suc p"
      have "p < m_start m" if "m \<in> set (scan U r s ?n)" for m
        using scan_sound [OF that] by (auto split: if_splits)
      with "1.IH"(2) [OF False Some eg [symmetric]] le Some eg show ?thesis
        by (simp add: scan_Some)
    qed
  qed
qed

text \<open>No match is skipped when the matches before it end before it starts.\<close>

lemma scan_complete:
  assumes "match_at U r s q \<noteq> None" and "p \<le> q" and "q \<le> length s"
    and "\<And>q' e g. p \<le> q' \<Longrightarrow> q' < q \<Longrightarrow> match_at U r s q' = Some (e, g) \<Longrightarrow> e \<le> q"
  shows "q \<in> m_start ` set (scan U r s p)"
  using assms
proof (induction U r s p rule: scan.induct)
  case (1 U r s p)
  from "1.prems" have le: "p \<le> length s" and notlt: "\<not> length s < p" by simp_all
  show ?case
  proof (cases "match_at U r s p")
    case None
    with "1.prems" have "p \<noteq> q" by auto
    with "1.prems" have "Suc p \<le> q" by simp
    moreover have "e \<le> q" if "Suc p \<le> q'" "q' < q" "match_at U r s q' = Some (e, g)" for q' e g
      using "1.prems"(4) [of q' e g] that by simp
    ultimately have "q \<in> m_start ` set (scan U r s (Suc p))"
      using "1.IH"(1) [OF notlt None "1.prems"(1) _ "1.prems"(3)] by blast
    with None le show ?thesis by (simp add: scan_None)
  next
    case (Some eg)
    obtain e g where eg: "eg = (e, g)" by (cases eg)
    let ?n = "if p < e then e else Suc p"
    show ?thesis
    proof (cases "p = q")
      case True
      with Some eg le show ?thesis by (simp add: scan_Some)
    next
      case False
      with "1.prems" have "p < q" by simp
      with "1.prems"(4) [of p e g] Some eg have "e \<le> q" by simp
      with \<open>p < q\<close> have "?n \<le> q" by simp
      moreover have "e' \<le> q" if "?n \<le> q'" "q' < q" "match_at U r s q' = Some (e', g')" for q' e' g'
        using "1.prems"(4) [of q' e' g'] that by (simp split: if_splits)
      ultimately have "q \<in> m_start ` set (scan U r s ?n)"
        using "1.IH"(2) [OF notlt Some eg [symmetric] "1.prems"(1) _ "1.prems"(3)] by blast
      with Some eg le show ?thesis by (simp add: scan_Some)
    qed
  qed
qed

section \<open>Word characters and the date rule\<close>

lemma decimal_is_word: "is_decimal U c \<Longrightarrow> is_word U c"
  by (auto simp: is_word_def is_alnum_def is_decimal_def digit_value_def split: if_splits)

lemma slash_not_word [simp]: "\<not> is_word U 47" "\<not> is_decimal U 47"
  by (simp_all add: is_word_def is_alnum_def is_decimal_def digit_value_def)

lemma month_chars_word: "month_chars a b \<Longrightarrow> is_word U a \<and> is_word U b"
  by (auto simp: month_chars_def is_word_def is_alnum_def)

lemma day_chars_word: "day_chars a b \<Longrightarrow> is_word U a \<and> is_word U b"
  by (auto simp: day_chars_def is_word_def is_alnum_def)

lemma boundary_before_word:
  "at_boundary U s q \<Longrightarrow> q < length s \<Longrightarrow> is_word U (s ! q) \<Longrightarrow> 0 < q \<Longrightarrow>
   \<not> is_word U (s ! (q - 1))"
  by (auto simp: at_boundary_def Let_def)

lemma boundary_after_word:
  "at_boundary U s q \<Longrightarrow> 0 < q \<Longrightarrow> q \<le> length s \<Longrightarrow> is_word U (s ! (q - 1)) \<Longrightarrow> q < length s \<Longrightarrow>
   \<not> is_word U (s ! q)"
  by (auto simp: at_boundary_def Let_def)

lemma date_at_words:
  assumes "date_at U s p"
  shows "is_word U (s ! p)" "is_word U (s ! (p + 1))" "is_word U (s ! (p + 3))"
    "is_word U (s ! (p + 4))" "is_word U (s ! (p + 6))" "is_word U (s ! (p + 7))"
    "is_word U (s ! (p + 8))" "is_word U (s ! (p + 9))"
proof -
  from assms have m: "month_chars (s ! p) (s ! (p + 1))" and d: "day_chars (s ! (p + 3)) (s ! (p + 4))"
    and y: "s ! (p + 6) = 49 \<or> s ! (p + 6) = 50"
    and z: "is_decimal U (s ! (p + 7))" "is_decimal U (s ! (p + 8))" "is_decimal U (s ! (p + 9))"
    unfolding date_at_def by blast+
  from m show "is_word U (s ! p)" "is_word U (s ! (p + 1))" using month_chars_word by blast+
  from d show "is_word U (s ! (p + 3))" "is_word U (s ! (p + 4))" using day_chars_word by blast+
  from y show "is_word U (s ! (p + 6))" by (auto simp: is_word_def is_alnum_def)
  from z show "is_word U (s ! (p + 7))" "is_word U (s ! (p + 8))" "is_word U (s ! (p + 9))"
    using decimal_is_word by blast+
qed

lemma date_no_overlap:
  assumes a: "date_at U s p" and b: "date_at U s q" and lt: "p < q"
  shows "p + 10 \<le> q"
proof (rule ccontr)
  assume "\<not> p + 10 \<le> q"
  with lt have range: "p < q" "q < p + 10" by simp_all
  note w = date_at_words [OF a]
  from a have sl: "s ! (p + 2) = 47" "s ! (p + 5) = 47"
    and dec: "is_decimal U (s ! (p + 8))" and len: "p + 10 \<le> length s"
    unfolding date_at_def by blast+
  from b have bq: "at_boundary U s q" and lenq: "q + 10 \<le> length s"
    and slq: "s ! (q + 2) = 47" "s ! (q + 5) = 47"
    unfolding date_at_def by blast+
  from lenq have "q < length s" by simp
  with bq date_at_words(1) [OF b] range have nw: "\<not> is_word U (s ! (q - 1))"
    by (intro boundary_before_word) simp_all
  from range consider "q - 1 = p" | "q - 1 = p + 1" | "q - 1 = p + 2" | "q - 1 = p + 3"
    | "q - 1 = p + 4" | "q - 1 = p + 5" | "q - 1 = p + 6" | "q - 1 = p + 7" | "q - 1 = p + 8"
    by linarith
  then show False
  proof cases
    case 1 with nw w(1) show False by simp
  next
    case 2 with nw w(2) show False by simp
  next
    case 3
    with range have eq: "q + 5 = p + 8" by simp
    have "s ! (p + 8) = 47" using slq(2) unfolding eq .
    with dec show False by simp
  next
    case 4 with nw w(3) show False by simp
  next
    case 5 with nw w(4) show False by simp
  next
    case 6
    with range have eq: "q + 2 = p + 8" by simp
    have "s ! (p + 8) = 47" using slq(1) unfolding eq .
    with dec show False by simp
  next
    case 7 with nw w(5) show False by simp
  next
    case 8 with nw w(6) show False by simp
  next
    case 9 with nw w(7) show False by simp
  qed
qed

section \<open>The matches of the date pattern\<close>

lemma take_split: "take (a + b) (drop p s) = take a (drop p s) @ take b (drop (p + a) s)"
  by (simp add: take_add add.commute)

lemma take_1_drop: "k < length s \<Longrightarrow> take 1 (drop k s) = [s ! k]"
  by (simp add: take_Suc hd_drop_conv_nth)

lemma date_text_split:
  assumes "p + 10 \<le> length s"
  shows "take 10 (drop p s) =
         take 2 (drop p s) @ [s ! (p + 2)] @ take 2 (drop (p + 3) s) @ [s ! (p + 5)] @
         take 4 (drop (p + 6) s)"
proof -
  have "take 10 (drop p s) = take (2 + (1 + (2 + (1 + 4)))) (drop p s)" by simp
  also have "\<dots> = take 2 (drop p s) @ take 1 (drop (p + 2) s) @ take 2 (drop (p + 3) s) @
      take 1 (drop (p + 5) s) @ take 4 (drop (p + 6) s)"
    by (simp only: take_split idx_assoc arith_simps)
  finally have split: "take 10 (drop p s) = take 2 (drop p s) @ take 1 (drop (p + 2) s) @
      take 2 (drop (p + 3) s) @ take 1 (drop (p + 5) s) @ take 4 (drop (p + 6) s)" .
  have t1: "take 1 (drop (p + 2) s) = [s ! (p + 2)]"
    by (rule take_1_drop) (use assms in simp)
  have t2: "take 1 (drop (p + 5) s) = [s ! (p + 5)]"
    by (rule take_1_drop) (use assms in simp)
  show ?thesis using split unfolding t1 t2 .
qed

lemma date_item:
  assumes "date_at U s p"
  shows "join [47] (map (group_text s \<lparr> m_start = p, m_end = p + 10, m_groups = date_groups p \<rparr>)
           [1..<Suc 3]) = slice s p (p + 10)"
proof -
  from assms have len: "p + 10 \<le> length s" and sl: "s ! (p + 2) = 47" "s ! (p + 5) = 47"
    unfolding date_at_def by blast+
  have "join [47] (map (group_text s \<lparr> m_start = p, m_end = p + 10, m_groups = date_groups p \<rparr>)
           [1..<Suc 3]) =
        take 2 (drop p s) @ [47] @ take 2 (drop (p + 3) s) @ [47] @ take 4 (drop (p + 6) s)"
    by (simp add: upt_1_4 group_text_def date_groups_def slice_def)
  also have "\<dots> = take 10 (drop p s)"
    unfolding date_text_split [OF len] sl ..
  finally show ?thesis by (simp add: slice_def)
qed

lemma date_matches_sound:
  assumes "m \<in> set (date_matches U s)"
  shows "date_at U s (m_start m)" "m_end m = m_start m + 10" "m_groups m = date_groups (m_start m)"
  using scan_sound [of m U date_pattern s 0] assms
  by (auto simp: date_matches_def re_finditer_def match_at_date split: if_splits)

lemma date_matches_complete:
  assumes "date_at U s p"
  shows "p \<in> m_start ` set (date_matches U s)"
  unfolding date_matches_def re_finditer_def
proof (rule scan_complete)
  show "match_at U date_pattern s p \<noteq> None" using assms by (simp add: match_at_date)
  show "0 \<le> p" by simp
  show "p \<le> length s" using assms by (simp add: date_at_def)
  fix q' e g
  assume "q' < p" and "match_at U date_pattern s q' = Some (e, g)"
  then have "date_at U s q'" and "e = q' + 10"
    by (auto simp: match_at_date split: if_splits)
  with date_no_overlap [OF _ assms \<open>q' < p\<close>] show "e \<le> p" by simp
qed

lemma extract_dates_slices:
  "extract_journal_dates U s = map (\<lambda>m. slice s (m_start m) (m_end m)) (date_matches U s)"
proof -
  have "join [47] (map (group_text s m) [1..<Suc 3]) = slice s (m_start m) (m_end m)"
    if "m \<in> set (date_matches U s)" for m
  proof -
    have "m = \<lparr> m_start = m_start m, m_end = m_start m + 10, m_groups = date_groups (m_start m) \<rparr>"
      using date_matches_sound(2,3) [OF that] by simp
    with date_item [OF date_matches_sound(1) [OF that]] date_matches_sound(2) [OF that]
    show ?thesis by metis
  qed
  then show ?thesis
    by (simp add: extract_journal_dates_def re_findall_groups_def date_matches_def)
qed

lemma slice_is_substring:
  assumes "p + n \<le> length s"
  shows "s = take p s @ slice s p (p + n) @ drop (p + n) s"
proof -
  have "drop p s = take n (drop p s) @ drop n (drop p s)"
    by (rule append_take_drop_id [symmetric])
  then have "drop p s = slice s p (p + n) @ drop (p + n) s"
    by (simp add: slice_def add.commute)
  then show ?thesis by (metis append_take_drop_id)
qed

lemma date_slice_shape:
  assumes "date_at U s p"
  shows "length (slice s p (p + 10)) = 10" "slice s p (p + 10) ! 2 = 47" "slice s p (p + 10) ! 5 = 47"
proof -
  from assms have len: "p + 10 \<le> length s" and sl: "s ! (p + 2) = 47" "s ! (p + 5) = 47"
    unfolding date_at_def by blast+
  from len show "length (slice s p (p + 10)) = 10" by (simp add: slice_def)
  from len sl(1) show "slice s p (p + 10) ! 2 = 47" by (simp add: slice_def)
  from len sl(2) show "slice s p (p + 10) ! 5 = 47" by (simp add: slice_def)
qed

section \<open>Date tokens and the date rule\<close>

lemma month_value: "in_range 1 12 (two_digits [a, b]) \<longleftrightarrow> month_chars a b"
  by (auto simp: in_range_def two_digits_def ascii_digit_def month_chars_def)

lemma day_value: "in_range 1 31 (two_digits [a, b]) \<longleftrightarrow> day_chars a b"
  by (auto simp: in_range_def two_digits_def ascii_digit_def day_chars_def)

lemma token_chars:
  "valid_date_token U [c0, c1, c2, c3, c4, c5, c6, c7, c8, c9] \<longleftrightarrow>
     month_chars c0 c1 \<and> c2 = 47 \<and> day_chars c3 c4 \<and> c5 = 47 \<and> (c6 = 49 \<or> c6 = 50) \<and>
     is_decimal U c7 \<and> is_decimal U c8 \<and> is_decimal U c9"
  by (simp add: valid_date_token_def month_value [unfolded One_nat_def]
        day_value [unfolded One_nat_def])

lemma ten_chars:
  assumes "p + 10 \<le> length s"
  shows "slice s p (p + 10) =
     [s ! p, s ! (p + 1), s ! (p + 2), s ! (p + 3), s ! (p + 4), s ! (p + 5), s ! (p + 6),
      s ! (p + 7), s ! (p + 8), s ! (p + 9)]"
proof -
  have ten: "(10::nat) = 1 + (1 + (1 + (1 + (1 + (1 + (1 + (1 + (1 + 1))))))))" by linarith
  have "take 10 (drop p s) = take (1 + (1 + (1 + (1 + (1 + (1 + (1 + (1 + (1 + 1))))))))) (drop p s)"
    by (subst ten) (rule refl)
  also have "\<dots> = take 1 (drop p s) @ take 1 (drop (p + 1) s) @ take 1 (drop (p + 2) s) @
      take 1 (drop (p + 3) s) @ take 1 (drop (p + 4) s) @ take 1 (drop (p + 5) s) @
      take 1 (drop (p + 6) s) @ take 1 (drop (p + 7) s) @ take 1 (drop (p + 8) s) @
      take 1 (drop (p + 9) s)"
    by (simp only: take_split idx_assoc arith_simps)
  finally have split: "take 10 (drop p s) = take 1 (drop p s) @ take 1 (drop (p + 1) s) @
      take 1 (drop (p + 2) s) @
      take 1 (drop (p + 3) s) @ take 1 (drop (p + 4) s) @ take 1 (drop (p + 5) s) @
      take 1 (drop (p + 6) s) @ take 1 (drop (p + 7) s) @ take 1 (drop (p + 8) s) @
      take 1 (drop (p + 9) s)" .
  have t: "take 1 (drop p s) = [s ! p]" "take 1 (drop (p + 1) s) = [s ! (p + 1)]"
    "take 1 (drop (p + 2) s) = [s ! (p + 2)]" "take 1 (drop (p + 3) s) = [s ! (p + 3)]"
    "take 1 (drop (p + 4) s) = [s ! (p + 4)]" "take 1 (drop (p + 5) s) = [s ! (p + 5)]"
    "take 1 (drop (p + 6) s) = [s ! (p + 6)]" "take 1 (drop (p + 7) s) = [s ! (p + 7)]"
    "take 1 (drop (p + 8) s) = [s ! (p + 8)]" "take 1 (drop (p + 9) s) = [s ! (p + 9)]"
    by (rule take_1_drop, use assms in simp)+
  show ?thesis using split unfolding t by (simp add: slice_def)
qed

lemma boundary_start_iff:
  "p < length s \<Longrightarrow> is_word U (s ! p) \<Longrightarrow>
   at_boundary U s p \<longleftrightarrow> \<not> flanked_before (is_word U) s p"
  by (auto simp: at_boundary_def flanked_before_def Let_def)

lemma boundary_end_iff:
  "0 < q \<Longrightarrow> q \<le> length s \<Longrightarrow> is_word U (s ! (q - 1)) \<Longrightarrow>
   at_boundary U s q \<longleftrightarrow> \<not> flanked_after (is_word U) s q"
  by (auto simp: at_boundary_def flanked_after_def Let_def)

lemma date_at_token:
  "date_at U s p \<longleftrightarrow>
     p + 10 \<le> length s \<and> valid_date_token U (slice s p (p + 10)) \<and>
     \<not> flanked_before (is_word U) s p \<and> \<not> flanked_after (is_word U) s (p + 10)"
proof (cases "p + 10 \<le> length s")
  case False
  then show ?thesis by (simp add: date_at_def)
next
  case True
  let ?chars = "month_chars (s ! p) (s ! (p + 1)) \<and> s ! (p + 2) = 47 \<and>
      day_chars (s ! (p + 3)) (s ! (p + 4)) \<and> s ! (p + 5) = 47 \<and>
      (s ! (p + 6) = 49 \<or> s ! (p + 6) = 50) \<and>
      is_decimal U (s ! (p + 7)) \<and> is_decimal U (s ! (p + 8)) \<and> is_decimal U (s ! (p + 9))"
  have tok: "valid_date_token U (slice s p (p + 10)) \<longleftrightarrow> ?chars"
    unfolding ten_chars [OF True] token_chars ..
  have bounds: "(at_boundary U s p \<longleftrightarrow> \<not> flanked_before (is_word U) s p) \<and>
      (at_boundary U s (p + 10) \<longleftrightarrow> \<not> flanked_after (is_word U) s (p + 10))" if ?chars
  proof -
    from that have w0: "is_word U (s ! p)" using month_chars_word by blast
    have w9: "is_word U (s ! (p + 10 - 1))"
    proof -
      have e: "p + 10 - 1 = p + 9" by simp
      from that have "is_decimal U (s ! (p + 9))" by blast
      then show ?thesis unfolding e by (rule decimal_is_word)
    qed
    have lt: "p < length s" using True by simp
    have pos: "0 < p + 10" by simp
    from boundary_start_iff [OF lt w0] boundary_end_iff [OF pos True w9]
    show ?thesis by blast
  qed
  have "date_at U s p \<longleftrightarrow> at_boundary U s p \<and> ?chars \<and> at_boundary U s (p + 10)"
    using True unfolding date_at_def by blast
  with tok bounds True show ?thesis by blast
qed

lemma decimal_le9: "is_decimal U c \<Longrightarrow> \<exists>d\<le>9. digit_value U c = Some d"
  by (auto simp: is_decimal_def digit_value_def split: if_splits option.splits)

lemma year_value:
  assumes "c6 = 49 \<or> c6 = 50" "is_decimal U c7" "is_decimal U c8" "is_decimal U c9"
  shows "in_range 1000 2999 (decimal_number U 0 [c6, c7, c8, c9])"
proof -
  from assms(1) obtain d6 where d6: "digit_value U c6 = Some d6" "1 \<le> d6" "d6 \<le> 2"
    by (auto simp: digit_value_def)
  from decimal_le9 [OF assms(2)] obtain d7 where d7: "digit_value U c7 = Some d7" "d7 \<le> 9" by blast
  from decimal_le9 [OF assms(3)] obtain d8 where d8: "digit_value U c8 = Some d8" "d8 \<le> 9" by blast
  from decimal_le9 [OF assms(4)] obtain d9 where d9: "digit_value U c9 = Some d9" "d9 \<le> 9" by blast
  from d6 d7 d8 d9 show ?thesis by (simp add: in_range_def)
qed

lemma date_fields:
  assumes "date_at U s p"
  shows "in_range 1 12 (two_digits (take 2 (slice s p (p + 10))))"
    "in_range 1 31 (two_digits (take 2 (drop 3 (slice s p (p + 10)))))"
    "in_range 1000 2999 (decimal_number U 0 (drop 6 (slice s p (p + 10))))"
proof -
  from assms have len: "p + 10 \<le> length s"
    and m: "month_chars (s ! p) (s ! (p + 1))" and d: "day_chars (s ! (p + 3)) (s ! (p + 4))"
    and y: "s ! (p + 6) = 49 \<or> s ! (p + 6) = 50"
      "is_decimal U (s ! (p + 7))" "is_decimal U (s ! (p + 8))" "is_decimal U (s ! (p + 9))"
    unfolding date_at_def by blast+
  show "in_range 1 12 (two_digits (take 2 (slice s p (p + 10))))"
    unfolding ten_chars [OF len] using m by (simp add: month_value [unfolded One_nat_def])
  show "in_range 1 31 (two_digits (take 2 (drop 3 (slice s p (p + 10)))))"
    unfolding ten_chars [OF len] using d by (simp add: day_value [unfolded One_nat_def])
  show "in_range 1000 2999 (decimal_number U 0 (drop 6 (slice s p (p + 10))))"
    unfolding ten_chars [OF len] using year_value [OF y] by simp
qed

lemma sorted_filter_less:
  fixes xs :: "nat list"
  shows "sorted_wrt (<) xs \<Longrightarrow> k < length xs \<Longrightarrow> length (filter (\<lambda>q. q < xs ! k) xs) = k"
proof (induction xs arbitrary: k)
  case Nil
  then show ?case by simp
next
  case (Cons x xs)
  show ?case
  proof (cases k)
    case 0
    from Cons.prems(1) have "\<forall>y \<in> set xs. \<not> y < x" by auto
    then have "filter (\<lambda>q. q < x) xs = []" by (simp add: filter_empty_conv)
    with 0 show ?thesis by simp
  next
    case (Suc j)
    with Cons.prems have j: "j < length xs" and "x < xs ! j" by auto
    with Cons.IH [of j] Cons.prems(1) Suc show ?thesis by simp
  qed
qed

section \<open>The matches of the code pattern\<close>

lemma code_prefix_split:
  assumes "p + 6 \<le> length s"
  shows "take 6 (drop p s) = [s ! p, s ! (p + 1), s ! (p + 2), s ! (p + 3), s ! (p + 4), s ! (p + 5)]"
proof -
  have six: "(6::nat) = 1 + (1 + (1 + (1 + (1 + 1))))" by linarith
  have "take 6 (drop p s) = take (1 + (1 + (1 + (1 + (1 + 1))))) (drop p s)"
    by (subst six) (rule refl)
  also have "\<dots> = take 1 (drop p s) @ take 1 (drop (p + 1) s) @ take 1 (drop (p + 2) s) @
      take 1 (drop (p + 3) s) @ take 1 (drop (p + 4) s) @ take 1 (drop (p + 5) s)"
    by (simp only: take_split idx_assoc arith_simps)
  finally have split: "take 6 (drop p s) = take 1 (drop p s) @ take 1 (drop (p + 1) s) @
      take 1 (drop (p + 2) s) @ take 1 (drop (p + 3) s) @ take 1 (drop (p + 4) s) @
      take 1 (drop (p + 5) s)" .
  have t: "take 1 (drop p s) = [s ! p]" "take 1 (drop (p + 1) s) = [s ! (p + 1)]"
    "take 1 (drop (p + 2) s) = [s ! (p + 2)]" "take 1 (drop (p + 3) s) = [s ! (p + 3)]"
    "take 1 (drop (p + 4) s) = [s ! (p + 4)]" "take 1 (drop (p + 5) s) = [s ! (p + 5)]"
    by (rule take_1_drop, use assms in simp)+
  show ?thesis using split unfolding t by simp
qed

lemma code_at_here: "code_at U s p \<longleftrightarrow> code_here U (drop p s)"
proof (cases "p + 9 \<le> length s")
  case True
  then have six: "p + 6 \<le> length s" by simp
  have nth: "drop p s ! 6 = s ! (p + 6)" "drop p s ! 7 = s ! (p + 7)" "drop p s ! 8 = s ! (p + 8)"
    using True by simp_all
  have len: "9 \<le> length (drop p s)" using True by simp
  show ?thesis
    unfolding code_at_def code_here_def nth code_prefix_split [OF six]
    using True len by (auto simp: str_def)
next
  case False
  then show ?thesis by (auto simp: code_at_def code_here_def)
qed

lemma codes_scan_spec:
  "p \<le> length s \<Longrightarrow>
   map (\<lambda>m. slice s (m_start m) (m_end m)) (scan U code_pattern s p) = spec_codes U (drop p s)"
proof (induction U r \<equiv> code_pattern s p rule: scan.induct)
  case (1 U s p)
  show ?case
  proof (cases "p = length s")
    case True
    then have "match_at U code_pattern s p = None" by (simp add: match_at_code code_at_def)
    then have "scan U code_pattern s p = scan U code_pattern s (Suc p)"
      using "1.prems" by (rule scan_None [rotated])
    also have "\<dots> = []" using True by (simp add: scan_past_end)
    finally show ?thesis using True by simp
  next
    case False
    with "1.prems" have lt: "p < length s" and notlt: "\<not> length s < p" by simp_all
    have cons: "drop p s = s ! p # drop (Suc p) s" using lt by (simp add: Cons_nth_drop_Suc)
    show ?thesis
    proof (cases "code_at U s p")
      case True
      then have m: "match_at U code_pattern s p = Some (p + 9, Map.empty)"
        by (simp add: match_at_code)
      from True have le9: "p + 9 \<le> length s" by (simp add: code_at_def)
      have here: "code_here U (s ! p # drop (Suc p) s)"
        using True cons by (simp add: code_at_here)
      have "map (\<lambda>m. slice s (m_start m) (m_end m)) (scan U code_pattern s (p + 9)) =
            spec_codes U (drop (p + 9) s)"
        using "1.hyps"(2) [OF notlt m refl] le9 by simp
      moreover have "drop 8 (drop (Suc p) s) = drop (p + 9) s" by (simp add: add.commute)
      moreover have "scan U code_pattern s p =
          \<lparr> m_start = p, m_end = p + 9, m_groups = Map.empty \<rparr> # scan U code_pattern s (p + 9)"
        using scan_Some [OF "1.prems" m] by simp
      moreover have "spec_codes U (drop p s) =
          take 9 (drop p s) # spec_codes U (drop 8 (drop (Suc p) s))"
        using here by (simp add: cons)
      ultimately show ?thesis by (simp add: slice_def)
    next
      case False
      then have m: "match_at U code_pattern s p = None" by (simp add: match_at_code)
      have "\<not> code_here U (s ! p # drop (Suc p) s)"
        using False cons by (simp add: code_at_here)
      moreover have "map (\<lambda>m. slice s (m_start m) (m_end m)) (scan U code_pattern s (Suc p)) =
            spec_codes U (drop (Suc p) s)"
        using "1.hyps"(1) [OF notlt m] lt by simp
      moreover have "spec_codes U (drop p s) = spec_codes U (s ! p # drop (Suc p) s)"
        using cons by simp
      ultimately show ?thesis
        using scan_None [OF "1.prems" m] by simp
    qed
  qed
qed

lemma extract_codes_spec: "extract_secret_codes U s = spec_codes U s"
  using codes_scan_spec [of 0 s U] by (simp add: extract_secret_codes_def re_findall_def re_finditer_def)

lemma code_matches_sound:
  assumes "m \<in> set (code_matches U s)"
  shows "code_at U s (m_start m)" "m_end m = m_start m + 9"
  using scan_sound [of m U code_pattern s 0] assms
  by (auto simp: code_matches_def re_finditer_def match_at_code split: if_splits)

lemma letter_not_decimal [simp]: "\<not> is_decimal U 65"
  by (simp add: is_decimal_def digit_value_def)

lemma code_no_overlap:
  assumes a: "code_at U s p" and b: "code_at U s q" and lt: "p < q"
  shows "p + 9 \<le> q"
proof (rule ccontr)
  assume "\<not> p + 9 \<le> q"
  with lt have range: "p < q" "q < p + 9" by simp_all
  from a have c: "s ! (p + 1) = 90" "s ! (p + 2) = 77" "s ! (p + 3) = 65" "s ! (p + 4) = 82"
    "s ! (p + 5) = 45" "is_decimal U (s ! (p + 6))" "is_decimal U (s ! (p + 7))"
    "is_decimal U (s ! (p + 8))"
    unfolding code_at_def by blast+
  from b have q0: "s ! q = 65" and q1: "s ! (q + 1) = 90"
    unfolding code_at_def by blast+
  from range consider "q = p + 1" | "q = p + 2" | "q = p + 3" | "q = p + 4"
    | "q = p + 5" | "q = p + 6" | "q = p + 7" | "q = p + 8"
    by linarith
  then show False
  proof cases
    case 1 with q0 c(1) show False by simp
  next
    case 2 with q0 c(2) show False by simp
  next
    case 3
    then have eq: "q + 1 = p + 4" by simp
    have "s ! (p + 4) = 90" using q1 unfolding eq .
    with c(4) show False by simp
  next
    case 4 with q0 c(4) show False by simp
  next
    case 5 with q0 c(5) show False by simp
  next
    case 6 with q0 c(6) show False by simp
  next
    case 7 with q0 c(7) show False by simp
  next
    case 8 with q0 c(8) show False by simp
  qed
qed

lemma code_matches_complete:
  assumes "code_at U s p"
  shows "p \<in> m_start ` set (code_matches U s)"
  unfolding code_matches_def re_finditer_def
proof (rule scan_complete)
  show "match_at U code_pattern s p \<noteq> None" using assms by (simp add: match_at_code)
  show "0 \<le> p" by simp
  show "p \<le> length s" using assms by (simp add: code_at_def)
  fix q' e g
  assume "q' < p" and "match_at U code_pattern s q' = Some (e, g)"
  then have "code_at U s q'" and "e = q' + 9"
    by (auto simp: match_at_code split: if_splits)
  with code_no_overlap [OF _ assms \<open>q' < p\<close>] show "e \<le> p" by simp
qed

lemma code_at_prefix:
  assumes "code_at U s p"
  shows "slice s p (p + 6) = str ''AZMAR-''"
proof -
  from assms have "p + 6 \<le> length s" and "s ! p = 65" "s ! (p + 1) = 90" "s ! (p + 2) = 77"
    "s ! (p + 3) = 65" "s ! (p + 4) = 82" "s ! (p + 5) = 45"
    unfolding code_at_def by (simp, blast+)
  then show ?thesis
    using code_prefix_split [of p s] by (simp add: slice_def str_def)
qed

lemma prefix_of_slice: "p + 9 \<le> length s \<Longrightarrow> take 6 (slice s p (p + 9)) = slice s p (p + 6)"
  by (simp add: slice_def min_def)

lemma extract_codes_slices:
  "extract_secret_codes U s = map (\<lambda>m. slice s (m_start m) (m_end m)) (code_matches U s)"
  by (simp add: extract_secret_codes_def re_findall_def code_matches_def)

lemma no_date_no_match: "\<forall>p. \<not> date_at U s p \<Longrightarrow> date_matches U s = []"
proof (cases "date_matches U s")
  case (Cons m ms)
  assume "\<forall>p. \<not> date_at U s p"
  moreover from Cons have "m \<in> set (date_matches U s)" by simp
  ultimately show ?thesis using date_matches_sound(1) by blast
qed simp

lemma no_code_no_match: "\<forall>p. \<not> code_at U s p \<Longrightarrow> code_matches U s = []"
proof (cases "code_matches U s")
  case (Cons m ms)
  assume "\<forall>p. \<not> code_at U s p"
  moreover from Cons have "m \<in> set (code_matches U s)" by simp
  ultimately show ?thesis using code_matches_sound(1) by blast
qed simp

section \<open>The worked example of the specification\<close>

text \<open>
  C4. On the text "Visited on 03/15/2024 and again 13/40/2024, see AZMAR-042 and
  AZMAR-99." the date extraction returns exactly the one date 03/15/2024 and the code
  extraction exactly the one code AZMAR-042, whatever the Unicode database says about
  the characters beyond ASCII.
\<close>

theorem worked_example:
  "extract_journal_dates U
     (str ''Visited on 03/15/2024 and again 13/40/2024, see AZMAR-042 and AZMAR-99.'')
     = [str ''03/15/2024'']
   \<and> extract_secret_codes U
     (str ''Visited on 03/15/2024 and again 13/40/2024, see AZMAR-042 and AZMAR-99.'')
     = [str ''AZMAR-042'']"
  by (simp add: run_simps)

section \<open>Secret codes\<close>

text \<open>
  C3. For every text, the code extraction returns exactly the left-to-right,
  non-overlapping occurrences of the prefix "AZMAR-" immediately followed by three
  decimal digits, with no condition on the characters around them: "AZMAR-007" gives
  that one code, "AZMAR-07" gives nothing, and "AZMAR-0071" gives "AZMAR-007", the
  trailing "1" being left over.
\<close>

theorem secret_codes_are_the_prefixed_triples:
  "extract_secret_codes U s = spec_codes U s
   \<and> extract_secret_codes U (str ''AZMAR-007'') = [str ''AZMAR-007'']
   \<and> extract_secret_codes U (str ''AZMAR-07'') = []
   \<and> extract_secret_codes U (str ''AZMAR-0071'') = [str ''AZMAR-007'']"
proof -
  have "extract_secret_codes U (str ''AZMAR-007'') = [str ''AZMAR-007'']"
    by (simp add: run_simps)
  moreover have "extract_secret_codes U (str ''AZMAR-07'') = []"
    by (simp add: run_simps)
  moreover have "extract_secret_codes U (str ''AZMAR-0071'') = [str ''AZMAR-007'']"
    by (simp add: run_simps)
  ultimately show ?thesis by (simp only: extract_codes_spec [symmetric] simp_thms)
qed

theorem secret_codes_are_the_prefixed_triples_witness:
  "extract_secret_codes sample_db (str ''xAZMAR-0071 AZMAR-12'')
     = spec_codes sample_db (str ''xAZMAR-0071 AZMAR-12'')
   \<and> spec_codes sample_db (str ''xAZMAR-0071 AZMAR-12'') = [str ''AZMAR-007'']"
  using secret_codes_are_the_prefixed_triples [of sample_db "str ''xAZMAR-0071 AZMAR-12''"]
  by (simp add: run_simps)

text \<open>
  C9. Matching a secret code is case-sensitive: every match starts with the exact
  uppercase prefix "AZMAR-", so does every returned code, a text in which that prefix
  occurs nowhere gives the empty list, and the lowercased variants "azmar-123" and
  "Azmar-123" give the empty list.
\<close>

theorem codes_case_sensitive:
  "(\<forall>m \<in> set (code_matches U s). slice s (m_start m) (m_start m + 6) = str ''AZMAR-'')
   \<and> (\<forall>r \<in> set (extract_secret_codes U s). take 6 r = str ''AZMAR-'')
   \<and> ((\<forall>p. slice s p (p + 6) \<noteq> str ''AZMAR-'') \<longrightarrow> extract_secret_codes U s = [])
   \<and> extract_secret_codes U (str ''azmar-123'') = []
   \<and> extract_secret_codes U (str ''Azmar-123'') = []"
proof (intro conjI ballI impI)
  fix m assume "m \<in> set (code_matches U s)"
  then show "slice s (m_start m) (m_start m + 6) = str ''AZMAR-''"
    using code_matches_sound(1) code_at_prefix by blast
next
  fix r assume "r \<in> set (extract_secret_codes U s)"
  then obtain m where m: "m \<in> set (code_matches U s)" and r: "r = slice s (m_start m) (m_end m)"
    by (auto simp: extract_codes_slices)
  from code_matches_sound [OF m] have at: "code_at U s (m_start m)" and e: "m_end m = m_start m + 9"
    by simp_all
  from at have "m_start m + 9 \<le> length s" by (simp add: code_at_def)
  then show "take 6 r = str ''AZMAR-''"
    unfolding r e using code_at_prefix [OF at] by (simp add: prefix_of_slice)
next
  assume none: "\<forall>p. slice s p (p + 6) \<noteq> str ''AZMAR-''"
  have "code_matches U s = []"
  proof (cases "code_matches U s")
    case (Cons m ms)
    then have "m \<in> set (code_matches U s)" by simp
    with code_matches_sound(1) code_at_prefix none show ?thesis by blast
  qed simp
  then show "extract_secret_codes U s = []" by (simp add: extract_codes_slices)
next
  show "extract_secret_codes U (str ''azmar-123'') = []" by (simp add: run_simps)
next
  show "extract_secret_codes U (str ''Azmar-123'') = []" by (simp add: run_simps)
qed

theorem codes_case_sensitive_witness:
  "extract_secret_codes sample_db (str ''azmar-123 AZMAR-456'') = [str ''AZMAR-456'']
   \<and> take 6 (str ''AZMAR-456'') = str ''AZMAR-''
   \<and> extract_secret_codes sample_db (str ''azmar-123 Azmar-456'') = []"
proof -
  have r: "extract_secret_codes sample_db (str ''azmar-123 AZMAR-456'') = [str ''AZMAR-456'']"
    by (simp add: run_simps)
  have none: "\<forall>p. slice (str ''azmar-123 Azmar-456'') p (p + 6) \<noteq> str ''AZMAR-''"
  proof (intro allI notI)
    fix p assume eq: "slice (str ''azmar-123 Azmar-456'') p (p + 6) = str ''AZMAR-''"
    have "90 \<in> set (slice (str ''azmar-123 Azmar-456'') p (p + 6))"
      unfolding eq by (simp add: str_def)
    then have "90 \<in> set (str ''azmar-123 Azmar-456'')"
      unfolding slice_def by (meson in_set_takeD in_set_dropD)
    then show False by (simp add: str_def)
  qed
  from codes_case_sensitive [of sample_db "str ''azmar-123 AZMAR-456''"] r
  have "take 6 (str ''AZMAR-456'') = str ''AZMAR-''" by simp
  moreover from codes_case_sensitive [of sample_db "str ''azmar-123 Azmar-456''"] none
  have "extract_secret_codes sample_db (str ''azmar-123 Azmar-456'') = []" by blast
  ultimately show ?thesis using r by simp
qed

section \<open>Journal dates\<close>

text \<open>
  C10. For every text, every element of the list returned by the date extraction is a
  contiguous substring of the text, has exactly 10 characters and carries "/" at
  positions 2 and 5; joining the three captured fields of a match with "/" gives back
  exactly the matched span of the text.
\<close>

theorem dates_are_spans_of_the_text:
  "(\<forall>r \<in> set (extract_journal_dates U s).
      length r = 10 \<and> r ! 2 = 47 \<and> r ! 5 = 47 \<and> (\<exists>pre post. s = pre @ r @ post))
   \<and> (\<forall>m \<in> set (date_matches U s).
        join [47] [group_text s m 1, group_text s m 2, group_text s m 3]
          = slice s (m_start m) (m_end m))"
proof (rule conjI; rule ballI)
  fix r assume "r \<in> set (extract_journal_dates U s)"
  then obtain m where m: "m \<in> set (date_matches U s)" and r: "r = slice s (m_start m) (m_end m)"
    by (auto simp: extract_dates_slices)
  from date_matches_sound [OF m] have at: "date_at U s (m_start m)" and e: "m_end m = m_start m + 10"
    by simp_all
  from at have "m_start m + 10 \<le> length s" by (simp add: date_at_def)
  from slice_is_substring [OF this] have "\<exists>pre post. s = pre @ r @ post"
    unfolding r e by blast
  with date_slice_shape [OF at]
  show "length r = 10 \<and> r ! 2 = 47 \<and> r ! 5 = 47 \<and> (\<exists>pre post. s = pre @ r @ post)"
    unfolding r e by simp
next
  fix m assume m: "m \<in> set (date_matches U s)"
  have "join [47] (map (group_text s m) [1..<Suc 3]) = slice s (m_start m) (m_end m)"
  proof -
    have "m = \<lparr> m_start = m_start m, m_end = m_start m + 10, m_groups = date_groups (m_start m) \<rparr>"
      using date_matches_sound(2,3) [OF m] by simp
    with date_item [OF date_matches_sound(1) [OF m]] date_matches_sound(2) [OF m]
    show ?thesis by metis
  qed
  then show "join [47] [group_text s m 1, group_text s m 2, group_text s m 3]
          = slice s (m_start m) (m_end m)"
    by (simp add: upt_1_4)
qed

theorem dates_are_spans_of_the_text_witness:
  "extract_journal_dates sample_db (str ''on 03/15/2024.'') = [str ''03/15/2024'']
   \<and> length (str ''03/15/2024'') = 10 \<and> str ''03/15/2024'' ! 2 = 47 \<and> str ''03/15/2024'' ! 5 = 47
   \<and> (\<exists>pre post. str ''on 03/15/2024.'' = pre @ str ''03/15/2024'' @ post)"
proof -
  have r: "extract_journal_dates sample_db (str ''on 03/15/2024.'') = [str ''03/15/2024'']"
    by (simp add: run_simps)
  with dates_are_spans_of_the_text [of sample_db "str ''on 03/15/2024.''"]
  show ?thesis by simp
qed

section \<open>Both extractions\<close>

text \<open>
  C6. Both extraction functions are total: the model has no failing branch (the source
  has no raise and the scan terminates on every text), so each call returns a list. A
  text with no occurrence of the date rule gives the empty list of dates, a text with no
  occurrence of the code rule the empty list of codes, and so does the empty text.
\<close>

theorem extraction_total_and_empty_without_matches:
  "((\<forall>p. \<not> date_at U s p) \<longrightarrow> extract_journal_dates U s = [])
   \<and> ((\<forall>p. \<not> code_at U s p) \<longrightarrow> extract_secret_codes U s = [])
   \<and> extract_journal_dates U [] = []
   \<and> extract_secret_codes U [] = []"
proof (intro conjI impI)
  assume "\<forall>p. \<not> date_at U s p"
  then show "extract_journal_dates U s = []"
    by (simp add: extract_dates_slices no_date_no_match)
next
  assume "\<forall>p. \<not> code_at U s p"
  then show "extract_secret_codes U s = []"
    by (simp add: extract_codes_slices no_code_no_match)
next
  show "extract_journal_dates U [] = []" by (simp add: run_simps)
next
  show "extract_secret_codes U [] = []" by (simp add: run_simps)
qed

theorem extraction_total_and_empty_without_matches_witness:
  "(\<forall>p. \<not> date_at sample_db (str ''13/40/2024'') p)
   \<and> extract_journal_dates sample_db (str ''13/40/2024'') = []
   \<and> (\<forall>p. \<not> code_at sample_db (str ''AZMAR-99.'') p)
   \<and> extract_secret_codes sample_db (str ''AZMAR-99.'') = []"
proof -
  have d: "\<forall>p. \<not> date_at sample_db (str ''13/40/2024'') p"
  proof (intro allI notI)
    fix p assume a: "date_at sample_db (str ''13/40/2024'') p"
    then have "p + 10 \<le> length (str ''13/40/2024'')" by (simp add: date_at_def)
    then have "p = 0" by (simp add: str_def)
    with a show False by (simp add: date_at_def str_def month_chars_def)
  qed
  have c: "\<forall>p. \<not> code_at sample_db (str ''AZMAR-99.'') p"
  proof (intro allI notI)
    fix p assume a: "code_at sample_db (str ''AZMAR-99.'') p"
    then have "p + 9 \<le> length (str ''AZMAR-99.'')" by (simp add: code_at_def)
    then have "p = 0" by (simp add: str_def)
    with a show False by (simp add: code_at_def str_def is_decimal_def digit_value_def)
  qed
  from extraction_total_and_empty_without_matches [of sample_db "str ''13/40/2024''"] d
  have "extract_journal_dates sample_db (str ''13/40/2024'') = []" by blast
  moreover from extraction_total_and_empty_without_matches [of sample_db "str ''AZMAR-99.''"] c
  have "extract_secret_codes sample_db (str ''AZMAR-99.'') = []" by blast
  ultimately show ?thesis using d c by blast
qed

text \<open>
  C5. For both extractions and every text, the result lists the matched spans of the
  text in increasing order of their start positions, and every occurrence of the rule
  in the text is in the list, so a token that occurs twice is returned twice; the text
  "AZMAR-001 ... AZMAR-001" gives the code twice.
\<close>

theorem results_in_text_order_with_duplicates:
  "extract_journal_dates U s = map (\<lambda>m. slice s (m_start m) (m_end m)) (date_matches U s)
   \<and> sorted_wrt (<) (map m_start (date_matches U s))
   \<and> (\<forall>p. date_at U s p \<longrightarrow> p \<in> set (map m_start (date_matches U s)))
   \<and> extract_secret_codes U s = map (\<lambda>m. slice s (m_start m) (m_end m)) (code_matches U s)
   \<and> sorted_wrt (<) (map m_start (code_matches U s))
   \<and> (\<forall>p. code_at U s p \<longrightarrow> p \<in> set (map m_start (code_matches U s)))
   \<and> extract_secret_codes U (str ''AZMAR-001 ... AZMAR-001'') = [str ''AZMAR-001'', str ''AZMAR-001'']"
proof (intro conjI allI impI)
  show "extract_journal_dates U s = map (\<lambda>m. slice s (m_start m) (m_end m)) (date_matches U s)"
    by (rule extract_dates_slices)
  show "sorted_wrt (<) (map m_start (date_matches U s))"
    unfolding date_matches_def re_finditer_def by (rule scan_sorted)
  show "extract_secret_codes U s = map (\<lambda>m. slice s (m_start m) (m_end m)) (code_matches U s)"
    by (rule extract_codes_slices)
  show "sorted_wrt (<) (map m_start (code_matches U s))"
    unfolding code_matches_def re_finditer_def by (rule scan_sorted)
  show "extract_secret_codes U (str ''AZMAR-001 ... AZMAR-001'') = [str ''AZMAR-001'', str ''AZMAR-001'']"
    by (simp add: run_simps)
next
  fix p assume "date_at U s p"
  then show "p \<in> set (map m_start (date_matches U s))"
    using date_matches_complete by simp
next
  fix p assume "code_at U s p"
  then show "p \<in> set (map m_start (code_matches U s))"
    using code_matches_complete by simp
qed

theorem results_in_text_order_with_duplicates_witness:
  "code_at sample_db (str ''AZMAR-001 ... AZMAR-001'') 0
   \<and> code_at sample_db (str ''AZMAR-001 ... AZMAR-001'') 14
   \<and> map m_start (code_matches sample_db (str ''AZMAR-001 ... AZMAR-001'')) = [0, 14]
   \<and> date_at sample_db (str ''01/02/2020 01/02/2020'') 11
   \<and> 11 \<in> set (map m_start (date_matches sample_db (str ''01/02/2020 01/02/2020'')))
   \<and> extract_journal_dates sample_db (str ''01/02/2020 01/02/2020'')
       = [str ''01/02/2020'', str ''01/02/2020'']"
proof -
  have c: "code_at sample_db (str ''AZMAR-001 ... AZMAR-001'') 0"
    "code_at sample_db (str ''AZMAR-001 ... AZMAR-001'') 14"
    by (simp_all add: code_at_def str_def is_decimal_def digit_value_def)
  have m: "map m_start (code_matches sample_db (str ''AZMAR-001 ... AZMAR-001'')) = [0, 14]"
    by (simp add: code_matches_def run_simps)
  have d: "date_at sample_db (str ''01/02/2020 01/02/2020'') 11"
    by (simp add: date_at_def str_def month_chars_def day_chars_def at_boundary_def
        is_word_def is_alnum_def is_decimal_def digit_value_def)
  have e: "extract_journal_dates sample_db (str ''01/02/2020 01/02/2020'')
       = [str ''01/02/2020'', str ''01/02/2020'']"
    by (simp add: run_simps)
  from results_in_text_order_with_duplicates [of sample_db "str ''01/02/2020 01/02/2020''"] d
  have "11 \<in> set (map m_start (date_matches sample_db (str ''01/02/2020 01/02/2020'')))"
    by blast
  with c m d e show ?thesis by blast
qed

section \<open>Valid dates and word boundaries\<close>

text \<open>
  C2. For every text, every date returned has a month field with value 1 to 12, a day
  field with value 1 to 31 and a year field with value 1000 to 2999, so a month 00 or 13
  and above, a day 00 or 32 and above, or a year outside 1000-2999 is never returned;
  no match has a word character (a letter, a digit or an underscore) directly before its
  first or directly after its last character; and "101/02/2020" does not give
  "01/02/2020".
\<close>

theorem dates_never_out_of_range:
  "(\<forall>r \<in> set (extract_journal_dates U s).
      in_range 1 12 (two_digits (take 2 r)) \<and>
      in_range 1 31 (two_digits (take 2 (drop 3 r))) \<and>
      in_range 1000 2999 (decimal_number U 0 (drop 6 r)))
   \<and> (\<forall>m \<in> set (date_matches U s).
        \<not> flanked_before (is_word U) s (m_start m) \<and> \<not> flanked_after (is_word U) s (m_end m))
   \<and> extract_journal_dates U (str ''101/02/2020'') = []
   \<and> extract_journal_dates U
        (str ''13/01/2020 00/10/2020 01/32/2020 10/00/2020 01/01/0999 01/01/3000'') = []"
proof (intro conjI)
  show "\<forall>r \<in> set (extract_journal_dates U s).
      in_range 1 12 (two_digits (take 2 r)) \<and>
      in_range 1 31 (two_digits (take 2 (drop 3 r))) \<and>
      in_range 1000 2999 (decimal_number U 0 (drop 6 r))"
  proof
    fix r assume "r \<in> set (extract_journal_dates U s)"
    then obtain m where m: "m \<in> set (date_matches U s)" and r: "r = slice s (m_start m) (m_end m)"
      by (auto simp: extract_dates_slices)
    from date_matches_sound [OF m]
    have at: "date_at U s (m_start m)" and e: "m_end m = m_start m + 10" by simp_all
    from date_fields [OF at]
    show "in_range 1 12 (two_digits (take 2 r)) \<and>
      in_range 1 31 (two_digits (take 2 (drop 3 r))) \<and>
      in_range 1000 2999 (decimal_number U 0 (drop 6 r))"
      unfolding r e by blast
  qed
  show "\<forall>m \<in> set (date_matches U s).
        \<not> flanked_before (is_word U) s (m_start m) \<and> \<not> flanked_after (is_word U) s (m_end m)"
  proof
    fix m assume m: "m \<in> set (date_matches U s)"
    from date_matches_sound [OF m]
    have at: "date_at U s (m_start m)" and e: "m_end m = m_start m + 10" by simp_all
    from at show "\<not> flanked_before (is_word U) s (m_start m) \<and> \<not> flanked_after (is_word U) s (m_end m)"
      unfolding e date_at_token by blast
  qed
  show "extract_journal_dates U (str ''101/02/2020'') = []"
    by (simp add: run_simps)
  show "extract_journal_dates U
        (str ''13/01/2020 00/10/2020 01/32/2020 10/00/2020 01/01/0999 01/01/3000'') = []"
    by (simp add: run_simps)
qed

theorem dates_never_out_of_range_witness:
  "extract_journal_dates sample_db (str ''x01/02/2020 12/31/2'' @ [1632, 1634, 1636])
     = [str ''12/31/2'' @ [1632, 1634, 1636]]
   \<and> in_range 1 12 (two_digits (str ''12''))
   \<and> in_range 1 31 (two_digits (str ''31''))
   \<and> in_range 1000 2999 (decimal_number sample_db 0 (str ''2'' @ [1632, 1634, 1636]))
   \<and> decimal_number sample_db 0 (str ''2'' @ [1632, 1634, 1636]) = Some 2024
   \<and> map m_start (date_matches sample_db (str ''x01/02/2020 12/31/2'' @ [1632, 1634, 1636])) = [12]"
proof -
  have r: "extract_journal_dates sample_db (str ''x01/02/2020 12/31/2'' @ [1632, 1634, 1636])
     = [str ''12/31/2'' @ [1632, 1634, 1636]]"
    by (simp add: run_simps sample_db_def)
  have v: "decimal_number sample_db 0 (str ''2'' @ [1632, 1634, 1636]) = Some 2024"
    by (simp add: str_def digit_value_def sample_db_def)
  have m: "map m_start (date_matches sample_db (str ''x01/02/2020 12/31/2'' @ [1632, 1634, 1636])) = [12]"
    by (simp add: date_matches_def run_simps sample_db_def)
  from dates_never_out_of_range [of sample_db "str ''x01/02/2020 12/31/2'' @ [1632, 1634, 1636]"] r
  have "in_range 1 12 (two_digits (str ''12'')) \<and> in_range 1 31 (two_digits (str ''31'')) \<and>
     in_range 1000 2999 (decimal_number sample_db 0 (str ''2'' @ [1632, 1634, 1636]))"
    by (simp add: str_def)
  with r v m show ?thesis by blast
qed

text \<open>
  C1, as amended. For every text and every valid date token that occurs in it at a
  position where neither the character before the token nor the character after it is a
  word character (a letter, a digit or an underscore; the start and the end of the text
  count as boundaries), the date extraction returns the token unmodified, at the index
  that equals the number of matches starting before it.
\<close>

theorem valid_dates_are_found:
  assumes "valid_date_token U d" and "occurs_at s p d"
    and "\<not> flanked_before (is_word U) s p" and "\<not> flanked_after (is_word U) s (p + 10)"
  shows "\<exists>k. k < length (extract_journal_dates U s) \<and>
             extract_journal_dates U s ! k = d \<and>
             map m_start (date_matches U s) ! k = p \<and>
             k = length (filter (\<lambda>q. q < p) (map m_start (date_matches U s)))"
proof -
  let ?ms = "date_matches U s"
  let ?starts = "map m_start ?ms"
  from assms(1) have len: "length d = 10" by (simp add: valid_date_token_def)
  with assms(2) have le: "p + 10 \<le> length s" and sl: "slice s p (p + 10) = d"
    by (simp_all add: occurs_at_def)
  with assms have at: "date_at U s p" by (simp add: date_at_token)
  from date_matches_complete [OF at] have "p \<in> set ?starts" by simp
  then obtain k where k: "k < length ?starts" "?starts ! k = p"
    by (auto simp: in_set_conv_nth)
  then have km: "k < length ?ms" "m_start (?ms ! k) = p" by simp_all
  then have "?ms ! k \<in> set ?ms" by simp
  from date_matches_sound(2) [OF this] km have e: "m_end (?ms ! k) = p + 10" by simp
  have sorted: "sorted_wrt (<) ?starts"
    unfolding date_matches_def re_finditer_def by (rule scan_sorted)
  from sorted_filter_less [OF sorted k(1)] k(2)
  have "k = length (filter (\<lambda>q. q < p) ?starts)" by simp
  moreover have "extract_journal_dates U s ! k = d"
    using km e sl by (simp add: extract_dates_slices)
  moreover have "k < length (extract_journal_dates U s)"
    using km by (simp add: extract_dates_slices)
  ultimately show ?thesis using k(2) by blast
qed

theorem valid_dates_are_found_witness:
  "extract_journal_dates sample_db (str ''a 01/02/2020, 12/31/2999.'') ! 1 = str ''12/31/2999''
   \<and> map m_start (date_matches sample_db (str ''a 01/02/2020, 12/31/2999.'')) = [2, 14]
   \<and> length (filter (\<lambda>q. q < 14)
        (map m_start (date_matches sample_db (str ''a 01/02/2020, 12/31/2999.'')))) = 1"
proof -
  let ?s = "str ''a 01/02/2020, 12/31/2999.''"
  let ?d = "str ''12/31/2999''"
  have v: "valid_date_token sample_db ?d"
    by (simp add: valid_date_token_def in_range_def two_digits_def ascii_digit_def str_def
        is_decimal_def digit_value_def)
  have o: "occurs_at ?s 14 ?d"
    by (simp add: occurs_at_def slice_def str_def)
  have b: "\<not> flanked_before (is_word sample_db) ?s 14"
    by (simp add: flanked_before_def is_word_def is_alnum_def str_def)
  have a: "\<not> flanked_after (is_word sample_db) ?s (14 + 10)"
    by (simp add: flanked_after_def is_word_def is_alnum_def str_def)
  have m: "map m_start (date_matches sample_db ?s) = [2, 14]"
    by (simp add: date_matches_def run_simps)
  from valid_dates_are_found [OF v o b a] obtain k where
    k: "extract_journal_dates sample_db ?s ! k = ?d"
      "k = length (filter (\<lambda>q. q < 14) (map m_start (date_matches sample_db ?s)))"
    by blast
  from k(2) have "k = 1" unfolding m by simp
  with k m show ?thesis by simp
qed

text \<open>
  C1 as stated takes a boundary to be a position not flanked by an alphanumeric
  character. An underscore is not alphanumeric, yet \<open>\b\<close> counts it as a word
  character: in "_01/02/2020" the valid token 01/02/2020 has no alphanumeric character
  on either side, and the extraction returns nothing.
\<close>

theorem underscore_is_no_boundary:
  "valid_date_token sample_db (str ''01/02/2020'')
   \<and> occurs_at (str ''_01/02/2020'') 1 (str ''01/02/2020'')
   \<and> \<not> flanked_before (is_alnum sample_db) (str ''_01/02/2020'') 1
   \<and> \<not> flanked_after (is_alnum sample_db) (str ''_01/02/2020'') 11
   \<and> extract_journal_dates sample_db (str ''_01/02/2020'') = []"
proof (intro conjI)
  show "valid_date_token sample_db (str ''01/02/2020'')"
    by (simp add: valid_date_token_def in_range_def two_digits_def ascii_digit_def str_def
        is_decimal_def digit_value_def)
  show "occurs_at (str ''_01/02/2020'') 1 (str ''01/02/2020'')"
    by (simp add: occurs_at_def slice_def str_def)
  show "\<not> flanked_before (is_alnum sample_db) (str ''_01/02/2020'') 1"
    by (simp add: flanked_before_def is_alnum_def str_def)
  show "\<not> flanked_after (is_alnum sample_db) (str ''_01/02/2020'') 11"
    by (simp add: flanked_after_def str_def)
  show "extract_journal_dates sample_db (str ''_01/02/2020'') = []"
    by (simp add: run_simps)
qed

end
